theory Spec2Isabelle
  imports Main "HOL-Library.Word"
begin

unbundle bit_operations_syntax

section \<open>Bytes, buffers and streams\<close>

text \<open>
  Both programs move bytes between a file, a fixed-size frame buffer and the pipe of the
  external codec. A byte is a \<open>uint8_t\<close>, \<open>uint64_t\<close> and \<open>size_t\<close> are 64-bit words,
  a buffer (\<open>std::vector<uint8_t>\<close>) and a stream (the unread rest of a file or pipe)
  are byte lists.
\<close>

type_synonym u8 = "8 word"
type_synonym u64 = "64 word"

text \<open>
  \<open>istream::read\<close> and \<open>fread\<close> into \<open>buf + off\<close>: the bytes that were available
  overwrite the buffer from \<open>off\<close> on, the rest of the buffer keeps its old content.
\<close>

definition write_bytes :: "u8 list \<Rightarrow> nat \<Rightarrow> u8 list \<Rightarrow> u8 list" where
  "write_bytes buf off bytes = take off buf @ bytes @ drop (off + length bytes) buf"

text \<open>
  Reading \<open>n\<close> bytes at \<open>buf + off\<close> (the source of \<open>ostream::write\<close>): a range that
  leaves the buffer is undefined behaviour in C++, here \<open>None\<close>.
\<close>

definition read_range :: "u8 list \<Rightarrow> nat \<Rightarrow> nat \<Rightarrow> u8 list option" where
  "read_range buf off n = (if off + n \<le> length buf then Some (take n (drop off buf)) else None)"

section \<open>yt-safe.cpp: the per-frame variant\<close>

definition FRAME_WIDTH :: nat where "FRAME_WIDTH = 320"
definition FRAME_HEIGHT :: nat where "FRAME_HEIGHT = 240"
definition FRAME_PIXELS :: nat where "FRAME_PIXELS = FRAME_WIDTH * FRAME_HEIGHT"
definition FRAME_SIZE :: nat where "FRAME_SIZE = FRAME_PIXELS * 3"
definition HEADER_SIZE :: nat where "HEADER_SIZE = 16"

text \<open>\<open>write_u64_le(dst, v)\<close>, with \<open>dst = buf + off\<close>: byte \<open>i\<close> is \<open>(v >> (i * 8)) & 0xFF\<close>.\<close>

definition write_u64_le :: "u8 list \<Rightarrow> nat \<Rightarrow> u64 \<Rightarrow> u8 list" where
  "write_u64_le buf dst v =
     fold (\<lambda>i b. b[dst + i := ucast (drop_bit (i * 8) v AND 0xFF)]) [0..<8] buf"

text \<open>\<open>read_u64_le(src)\<close>, with \<open>src = buf + off\<close>: \<open>v |= (uint64_t)src[i] << (i * 8)\<close>.\<close>

definition read_u64_le :: "u8 list \<Rightarrow> nat \<Rightarrow> u64" where
  "read_u64_le buf src =
     fold (\<lambda>i v. v OR push_bit (i * 8) (ucast (buf ! (src + i)))) [0..<8] 0"

subsection \<open>encode_file\<close>

text \<open>
  The state of the encoding loop: the frame buffer (reused by every iteration), the unread
  rest of the input file, the two counters, the number of calls of \<open>rand()\<close> made so far,
  and the bytes written to the codec's pipe.
\<close>

record enc_state =
  enc_frame :: "u8 list"
  fin :: "u8 list"
  bytes_left :: u64
  frame_index :: u64
  rand_calls :: nat
  enc_pipe :: "u8 list"

text \<open>
  The noise loop \<open>for (i = HEADER_SIZE + payload; i < FRAME_SIZE; i++) frame[i] =
  (uint8_t)(rand() % 256)\<close>. The C library's generator is a parameter: \<open>rnd k\<close> is the value
  (between 0 and \<open>RAND_MAX\<close>) that the \<open>k\<close>-th call of \<open>rand()\<close> returns.
\<close>

definition fill_noise :: "(nat \<Rightarrow> nat) \<Rightarrow> u8 list \<Rightarrow> nat \<Rightarrow> nat \<Rightarrow> u8 list \<times> nat" where
  "fill_noise rnd buf lo k =
     fold (\<lambda>i (b, c). (b[i := of_nat (rnd c mod 256)], Suc c)) [lo..<FRAME_SIZE] (buf, k)"

text \<open>One iteration of \<open>while (bytes_left > 0)\<close>.\<close>

definition encode_body :: "(nat \<Rightarrow> nat) \<Rightarrow> enc_state \<Rightarrow> enc_state" where
  "encode_body rnd s =
     (let payload = min (bytes_left s) (of_nat (FRAME_SIZE - HEADER_SIZE));
          f1 = write_u64_le (enc_frame s) 0 (frame_index s);
          f2 = write_u64_le f1 8 payload;
          f3 = write_bytes f2 HEADER_SIZE (take (unat payload) (fin s));
          f4 = fill_noise rnd f3 (HEADER_SIZE + unat payload) (rand_calls s)
      in \<lparr>enc_frame = fst f4,
          fin = drop (unat payload) (fin s),
          bytes_left = bytes_left s - payload,
          frame_index = frame_index s + 1,
          rand_calls = snd f4,
          enc_pipe = enc_pipe s @ fst f4\<rparr>)"

lemma CAP_eq: "FRAME_SIZE - HEADER_SIZE = 230384"
  by (simp add: FRAME_SIZE_def FRAME_PIXELS_def FRAME_WIDTH_def FRAME_HEIGHT_def HEADER_SIZE_def)

lemma FRAME_SIZE_eq: "FRAME_SIZE = 230400"
  by (simp add: FRAME_SIZE_def FRAME_PIXELS_def FRAME_WIDTH_def FRAME_HEIGHT_def)

lemma unat_min: "unat (min a b) = min (unat a) (unat b)" for a b :: u64
  by (simp add: min_def word_le_nat_alt)

lemma unat_CAP: "unat (of_nat (FRAME_SIZE - HEADER_SIZE) :: u64) = 230384"
  by (simp add: CAP_eq)

lemma unat_payload:
  "unat (min bl (of_nat (FRAME_SIZE - HEADER_SIZE) :: u64)) = min (unat bl) 230384"
  by (simp only: unat_min unat_CAP)

lemma bytes_left_body:
  "unat (bytes_left (encode_body rnd s)) = unat (bytes_left s) - min (unat (bytes_left s)) 230384"
proof -
  let ?p = "min (bytes_left s) (of_nat (FRAME_SIZE - HEADER_SIZE) :: u64)"
  have "?p \<le> bytes_left s" by simp
  then have "unat (bytes_left s - ?p) = unat (bytes_left s) - unat ?p"
    by (rule unat_sub)
  then show ?thesis
    by (simp add: encode_body_def Let_def unat_payload)
qed

function encode_loop :: "(nat \<Rightarrow> nat) \<Rightarrow> enc_state \<Rightarrow> enc_state" where
  "encode_loop rnd s = (if 0 < bytes_left s then encode_loop rnd (encode_body rnd s) else s)"
  by pat_completeness auto
termination
proof (relation "measure (\<lambda>(rnd, s). unat (bytes_left s))")
  show "wf (measure (\<lambda>(rnd, s). unat (bytes_left s)))" by simp
next
  fix rnd :: "nat \<Rightarrow> nat" and s :: enc_state
  assume "0 < bytes_left s"
  then have "0 < unat (bytes_left s)" by (simp add: word_less_nat_alt)
  then show "((rnd, encode_body rnd s), (rnd, s)) \<in> measure (\<lambda>(rnd, s). unat (bytes_left s))"
    by (simp add: bytes_left_body)
qed

declare encode_loop.simps [simp del]

text \<open>The frame buffers that the loop hands to \<open>fwrite\<close>, in order.\<close>

function frames_written :: "(nat \<Rightarrow> nat) \<Rightarrow> enc_state \<Rightarrow> u8 list list" where
  "frames_written rnd s =
     (if 0 < bytes_left s
      then enc_frame (encode_body rnd s) # frames_written rnd (encode_body rnd s) else [])"
  by pat_completeness auto
termination
proof (relation "measure (\<lambda>(rnd, s). unat (bytes_left s))")
  show "wf (measure (\<lambda>(rnd, s). unat (bytes_left s)))" by simp
next
  fix rnd :: "nat \<Rightarrow> nat" and s :: enc_state
  assume "0 < bytes_left s"
  then have "0 < unat (bytes_left s)" by (simp add: word_less_nat_alt)
  then show "((rnd, encode_body rnd s), (rnd, s)) \<in> measure (\<lambda>(rnd, s). unat (bytes_left s))"
    by (simp add: bytes_left_body)
qed

declare frames_written.simps [simp del]

text \<open>
  The ways a run can fail. \<open>OutOfBounds\<close> stands for a read outside the frame buffer
  (undefined behaviour); the others are the \<open>return 1\<close> branches of yt-safe.cpp (the
  first three) and of test.cpp.
\<close>

datatype error =
    CannotOpenInput | PipeFailed | CannotOpenOutput | OutOfBounds
  | CannotStat | CannotOpenTmp | CannotReadSizeHeader

text \<open>
  \<open>encode_file\<close>: \<open>in_file\<close> is the content of the input file (\<open>None\<close> when it cannot be
  opened), \<open>popen_ok\<close> says whether the codec process could be started. The result is
  the byte stream written to the codec's standard input.
\<close>

definition enc_init :: "u8 list \<Rightarrow> enc_state" where
  "enc_init content =
     \<lparr>enc_frame = replicate FRAME_SIZE 0,
      fin = content,
      bytes_left = of_nat (length content),
      frame_index = 0,
      rand_calls = 0,
      enc_pipe = []\<rparr>"

definition encode_file :: "(nat \<Rightarrow> nat) \<Rightarrow> u8 list option \<Rightarrow> bool \<Rightarrow> error + u8 list" where
  "encode_file rnd in_file popen_ok =
     (case in_file of
        None \<Rightarrow> Inl CannotOpenInput
      | Some content \<Rightarrow>
          if \<not> popen_ok then Inl PipeFailed
          else Inr (enc_pipe (encode_loop rnd (enc_init content))))"

text \<open>The value returned to \<open>main\<close>: 1 on the error branches, 0 at the end of the function.\<close>

definition exit_code :: "error + 'a \<Rightarrow> int" where
  "exit_code r = (case r of Inl e \<Rightarrow> 1 | Inr x \<Rightarrow> 0)"

subsection \<open>decode_video\<close>

text \<open>
  The body of the decoding loop after a full read: both header fields are read, the
  payload length is clamped, and that many bytes after the header go to the output.
\<close>

definition decode_frame :: "u8 list \<Rightarrow> u8 list option" where
  "decode_frame frame =
     (let index = read_u64_le frame 0;
          payload = read_u64_le frame 8;
          payload = (if of_nat (FRAME_SIZE - HEADER_SIZE) < payload
                     then of_nat (FRAME_SIZE - HEADER_SIZE) else payload)
      in read_range frame HEADER_SIZE (unat payload))"

text \<open>
  \<open>while (true)\<close>: \<open>fread\<close> delivers the next \<open>FRAME_SIZE\<close> bytes of the pipe, or fewer
  at its end; a short read leaves the loop.
\<close>

function decode_loop :: "u8 list \<Rightarrow> u8 list \<Rightarrow> u8 list \<Rightarrow> error + u8 list" where
  "decode_loop frame pipe fout =
     (if length (take FRAME_SIZE pipe) < FRAME_SIZE then Inr fout
      else case decode_frame (write_bytes frame 0 (take FRAME_SIZE pipe)) of
             None \<Rightarrow> Inl OutOfBounds
           | Some payload \<Rightarrow>
               decode_loop (write_bytes frame 0 (take FRAME_SIZE pipe))
                 (drop FRAME_SIZE pipe) (fout @ payload))"
  by pat_completeness auto
termination
  by (relation "measure (\<lambda>(frame, pipe, fout). length pipe)") (auto simp: FRAME_SIZE_eq)

declare decode_loop.simps [simp del]

text \<open>The full frames of a raw stream, as the decoding loop reads them.\<close>

function frames_of :: "u8 list \<Rightarrow> u8 list list" where
  "frames_of stream =
     (if length (take FRAME_SIZE stream) < FRAME_SIZE then []
      else take FRAME_SIZE stream # frames_of (drop FRAME_SIZE stream))"
  by pat_completeness auto
termination
  by (relation "measure length") (auto simp: FRAME_SIZE_eq)

declare frames_of.simps [simp del]

text \<open>
  \<open>decode_video\<close>: \<open>pipe\<close> is the codec's output stream (\<open>None\<close> when the process cannot
  be started), \<open>fout_ok\<close> says whether the output file could be created. The result is
  the content of the output file.
\<close>

definition decode_video :: "u8 list option \<Rightarrow> bool \<Rightarrow> error + u8 list" where
  "decode_video pipe fout_ok =
     (case pipe of
        None \<Rightarrow> Inl PipeFailed
      | Some stream \<Rightarrow>
          if \<not> fout_ok then Inl CannotOpenOutput
          else decode_loop (replicate FRAME_SIZE 0) stream [])"

section \<open>test.cpp: the bounded frame queue\<close>

type_synonym Buffer = "u8 list"

definition QUEUE_MAX_FRAMES :: nat where "QUEUE_MAX_FRAMES = 64"

text \<open>
  \<open>class FrameQueue\<close>: the deque, the \<open>closed\<close> flag and the bound. Every member
  function runs under the mutex \<open>m\<close>, so each is one atomic step on this state.
\<close>

record FrameQueue =
  q :: "Buffer list"
  closed :: bool
  max_frames :: nat

definition FrameQueue_init :: "nat \<Rightarrow> FrameQueue" where
  "FrameQueue_init n = \<lparr>q = [], closed = False, max_frames = n\<rparr>"

text \<open>
  A call either returns, or its thread stays in \<open>condition_variable::wait\<close> because the
  predicate of the wait is false: the state is then unchanged and the call is still pending.
\<close>

datatype 'r outcome = Blocked | Returned 'r

definition push :: "FrameQueue \<Rightarrow> Buffer \<Rightarrow> bool outcome \<times> FrameQueue" where
  "push fq buf =
     (if length (q fq) < max_frames fq \<or> closed fq
      then (if closed fq then (Returned False, fq)
            else (Returned True, fq\<lparr>q := q fq @ [buf]\<rparr>))
      else (Blocked, fq))"

text \<open>
  \<open>pop\<close> returns \<open>false\<close> (here \<open>None\<close>, the caller's buffer is not touched) or \<open>true\<close>
  with the front frame moved into \<open>out\<close>.
\<close>

definition pop :: "FrameQueue \<Rightarrow> Buffer option outcome \<times> FrameQueue" where
  "pop fq =
     (if q fq = [] \<and> \<not> closed fq then (Blocked, fq)
      else (case q fq of
              [] \<Rightarrow> (Returned None, fq)
            | front # rest \<Rightarrow> (Returned (Some front), fq\<lparr>q := rest\<rparr>)))"

definition close :: "FrameQueue \<Rightarrow> FrameQueue" where
  "close fq = fq\<lparr>closed := True\<rparr>"

text \<open>
  The calls that the threads make on one queue, in the order in which they take the mutex.
  A blocked call changes nothing; its thread makes the same call again when it is woken.
\<close>

datatype op = Push Buffer | Pop | Close

fun apply_op :: "FrameQueue \<Rightarrow> op \<Rightarrow> FrameQueue" where
  "apply_op fq (Push buf) = snd (push fq buf)"
| "apply_op fq Pop = snd (pop fq)"
| "apply_op fq Close = close fq"

text \<open>The frames that were accepted by \<open>push\<close>, and the frames handed out by \<open>pop\<close>.\<close>

fun pushed :: "FrameQueue \<Rightarrow> op list \<Rightarrow> Buffer list" where
  "pushed fq [] = []"
| "pushed fq (Push buf # ops) =
     (if fst (push fq buf) = Returned True then [buf] else []) @ pushed (snd (push fq buf)) ops"
| "pushed fq (Pop # ops) = pushed (snd (pop fq)) ops"
| "pushed fq (Close # ops) = pushed (close fq) ops"

fun popped :: "FrameQueue \<Rightarrow> op list \<Rightarrow> Buffer list" where
  "popped fq [] = []"
| "popped fq (Push buf # ops) = popped (snd (push fq buf)) ops"
| "popped fq (Pop # ops) =
     (case fst (pop fq) of Returned (Some front) \<Rightarrow> [front] | _ \<Rightarrow> []) @ popped (snd (pop fq)) ops"
| "popped fq (Close # ops) = popped (close fq) ops"

section \<open>test.cpp: the global-size variant\<close>

definition FRAME_WIDTH_main :: nat where "FRAME_WIDTH_main = 1920"
definition FRAME_HEIGHT_main :: nat where "FRAME_HEIGHT_main = 1080"
definition PACK_PER_PIXEL :: nat where "PACK_PER_PIXEL = 3"
definition FRAME_CAPACITY :: nat where
  "FRAME_CAPACITY = FRAME_WIDTH_main * FRAME_HEIGHT_main * PACK_PER_PIXEL"
definition COPY_BUF :: nat where "COPY_BUF = 64 * 1024 * 1024"

subsection \<open>The reader thread of the encoder\<close>

text \<open>\<open>memset(buf + off, 0, n)\<close>.\<close>

definition memset0 :: "Buffer \<Rightarrow> nat \<Rightarrow> nat \<Rightarrow> Buffer" where
  "memset0 buf off n = write_bytes buf off (replicate n 0)"

text \<open>\<open>for (int i = 7; i >= 0; --i) frame[7 - i] = (u8)((fs >> (i * 8)) & 0xFF)\<close>.\<close>

definition write_size_be :: "Buffer \<Rightarrow> u64 \<Rightarrow> Buffer" where
  "write_size_be frame fs =
     fold (\<lambda>i b. b[7 - i := ucast (drop_bit (i * 8) fs AND 0xFF)]) (rev [0..<8]) frame"

text \<open>
  One iteration of the reader's loop up to the call of \<open>push\<close>: the frame built from the
  unread rest \<open>f\<close> of the file, and the rest left after it; \<open>None\<close> at the \<open>break\<close>
  on end of file.
\<close>

definition reader_frame :: "u64 \<Rightarrow> nat \<Rightarrow> u8 list \<Rightarrow> (Buffer \<times> u8 list) option" where
  "reader_frame file_size frames_produced f =
     (let frame = replicate FRAME_CAPACITY 0;
          first_capacity = FRAME_CAPACITY - 8
      in if frames_produced = 0
         then (let got = take first_capacity f;
                   read_here = length got;
                   frame = write_bytes frame 8 got;
                   frame = write_size_be frame file_size;
                   frame = (if read_here < first_capacity
                            then memset0 frame (8 + read_here) (first_capacity - read_here)
                            else frame)
               in Some (frame, drop first_capacity f))
         else (let got = take FRAME_CAPACITY f;
                   read_here = length got;
                   frame = write_bytes frame 0 got
               in if read_here = 0 then None
                  else Some (if read_here < FRAME_CAPACITY
                             then memset0 frame read_here (FRAME_CAPACITY - read_here)
                             else frame,
                             drop FRAME_CAPACITY f)))"

lemma FRAME_CAPACITY_eq: "FRAME_CAPACITY = 6220800"
  by (simp add: FRAME_CAPACITY_def FRAME_WIDTH_main_def FRAME_HEIGHT_main_def PACK_PER_PIXEL_def)

lemma reader_frame_rest:
  "reader_frame file_size frames_produced f = Some (frame, rest) \<Longrightarrow>
     2 * length rest < 2 * length f + (if frames_produced = 0 then 1 else 0)"
  by (auto simp: reader_frame_def Let_def FRAME_CAPACITY_eq split: if_splits)

text \<open>
  The frames that the reader thread hands to \<open>queue.push\<close>, in order. Only the reader
  itself closes the queue, after its loop, so each of its \<open>push\<close> calls returns \<open>true\<close>
  (after waiting for room), and \<open>frames_produced\<close> counts the iterations.
\<close>

function reader_loop :: "u64 \<Rightarrow> nat \<Rightarrow> u8 list \<Rightarrow> Buffer list" where
  "reader_loop file_size frames_produced f =
     (case reader_frame file_size frames_produced f of
        None \<Rightarrow> []
      | Some (frame, rest) \<Rightarrow> frame # reader_loop file_size (Suc frames_produced) rest)"
  by pat_completeness auto
termination
  by (relation "measure (\<lambda>(file_size, frames_produced, f).
        2 * length f + (if frames_produced = 0 then 1 else 0))")
    (auto dest: reader_frame_rest)

declare reader_loop.simps [simp del]

text \<open>
  The encode branch of \<open>main\<close>: \<open>in_file\<close> is the content of the input file (\<open>None\<close> when
  \<open>stat\<close> fails), \<open>ffmpeg_ok\<close> and \<open>fopen_ok\<close> say whether the codec process started and
  whether the reader could open the file. The writer thread pops the frames in the order
  of the pushes and writes each to the codec; the result is that byte stream.
\<close>

definition main_encode :: "u8 list option \<Rightarrow> bool \<Rightarrow> bool \<Rightarrow> error + u8 list" where
  "main_encode in_file ffmpeg_ok fopen_ok =
     (case in_file of
        None \<Rightarrow> Inl CannotStat
      | Some content \<Rightarrow>
          if \<not> ffmpeg_ok then Inl PipeFailed
          else if \<not> fopen_ok then Inr []
          else Inr (concat (reader_loop (of_nat (length content)) 0 content)))"

subsection \<open>The decode branch\<close>

text \<open>
  The first loop copies the codec's output to the temporary file: \<open>fread\<close> delivers up to
  \<open>FRAME_CAPACITY\<close> bytes, and only a read of no bytes at all leaves the loop.
\<close>

function read_loop :: "u8 list \<Rightarrow> u8 list \<Rightarrow> u8 list" where
  "read_loop ff tmp =
     (if length (take FRAME_CAPACITY ff) = 0 then tmp
      else read_loop (drop FRAME_CAPACITY ff) (tmp @ take FRAME_CAPACITY ff))"
  by pat_completeness auto
termination
  by (relation "measure (\<lambda>(ff, tmp). length ff)") (auto simp: FRAME_CAPACITY_eq)

declare read_loop.simps [simp del]

text \<open>The second loop copies \<open>remaining\<close> bytes of the temporary file to the output.\<close>

function copy_loop :: "nat \<Rightarrow> u8 list \<Rightarrow> u8 list \<Rightarrow> u8 list" where
  "copy_loop remaining tmp final_out =
     (if 0 < remaining
      then (if length (take (if remaining < COPY_BUF then remaining else COPY_BUF) tmp) = 0
            then final_out
            else copy_loop
                   (remaining - length (take (if remaining < COPY_BUF then remaining else COPY_BUF) tmp))
                   (drop (if remaining < COPY_BUF then remaining else COPY_BUF) tmp)
                   (final_out @ take (if remaining < COPY_BUF then remaining else COPY_BUF) tmp))
      else final_out)"
  by pat_completeness auto
termination
  by (relation "measure (\<lambda>(remaining, tmp, final_out). remaining)") (auto split: if_splits)

declare copy_loop.simps [simp del]

text \<open>
  The decode branch of \<open>main\<close>: \<open>ff\<close> is the codec's output stream (\<open>None\<close> when the
  process cannot be started); the flags say whether the temporary file could be created,
  reopened, and the output file created.
\<close>

definition main_decode :: "u8 list option \<Rightarrow> bool \<Rightarrow> bool \<Rightarrow> bool \<Rightarrow> error + u8 list" where
  "main_decode ff out_ok tmp_ok final_ok =
     (case ff of
        None \<Rightarrow> Inl PipeFailed
      | Some stream \<Rightarrow>
          if \<not> out_ok then Inl CannotOpenOutput
          else (let tmp = read_loop stream [] in
            if \<not> tmp_ok then Inl CannotOpenTmp
            else (let size_bytes = take 8 tmp in
              if length size_bytes \<noteq> 8 then Inl CannotReadSizeHeader
              else (let orig_size =
                          fold (\<lambda>i v. push_bit 8 v OR ucast (size_bytes ! i)) [0..<8] (0 :: u64)
                    in if \<not> final_ok then Inl CannotOpenOutput
                       else Inr (copy_loop (unat orig_size) (drop 8 tmp) [])))))"

section \<open>Notions used in the statements\<close>

text \<open>Byte \<open>i\<close> of the little-endian form of a 64-bit value.\<close>

definition le_byte :: "u64 \<Rightarrow> nat \<Rightarrow> u8" where
  "le_byte v i = ucast (drop_bit (i * 8) v AND 0xFF)"

text \<open>
  The invariant of the encoding loop: the frame buffer has its size, and \<open>bytes_left\<close>
  is the number of bytes still unread. It holds before the first iteration for a file
  shorter than \<open>2 ^ 64\<close> bytes, and every iteration keeps it.
\<close>

definition enc_inv :: "enc_state \<Rightarrow> bool" where
  "enc_inv s = (length (enc_frame s) = FRAME_SIZE \<and> unat (bytes_left s) = length (fin s))"

text \<open>The number of payload bytes of the next frame, as a word and as a number.\<close>

definition payload64 :: "enc_state \<Rightarrow> u64" where
  "payload64 s = min (bytes_left s) (of_nat (FRAME_SIZE - HEADER_SIZE))"

definition next_payload :: "enc_state \<Rightarrow> nat" where
  "next_payload s = min (unat (bytes_left s)) (FRAME_SIZE - HEADER_SIZE)"

text \<open>
  The payload that a full frame carries: as many bytes after the header as the length
  field at bytes 8 to 15 declares, at most \<open>FRAME_SIZE - HEADER_SIZE\<close>. Neither the index
  field nor the filler is part of it.
\<close>

definition frame_payload :: "u8 list \<Rightarrow> u8 list" where
  "frame_payload f =
     take (min (unat (read_u64_le f 8)) (FRAME_SIZE - HEADER_SIZE)) (drop HEADER_SIZE f)"

text \<open>A generator whose values are all multiples of 256 (here 0, which \<open>rand()\<close> may return).\<close>

definition zero_rand :: "nat \<Rightarrow> nat" where
  "zero_rand k = 0"

section \<open>Little-endian header fields\<close>

lemma fold_update_length:
  "length (fold (\<lambda>i b. b[dst + i := f i]) [0..<n] buf) = length buf"
  by (induction n) simp_all

lemma fold_update_nth:
  "fold (\<lambda>i b. b[dst + i := f i]) [0..<n] buf ! j =
     (if dst \<le> j \<and> j < dst + n \<and> j < length buf then f (j - dst) else buf ! j)"
proof (induction n)
  case 0
  show ?case by auto
next
  case (Suc n)
  show ?case
  proof (cases "j = dst + n")
    case True
    then show ?thesis using Suc by (auto simp: fold_update_length list_update_beyond)
  next
    case False
    then show ?thesis using Suc by (auto simp: nth_list_update)
  qed
qed

lemma length_write_u64_le [simp]: "length (write_u64_le buf dst v) = length buf"
  by (simp add: write_u64_le_def fold_update_length)

lemma write_u64_le_nth:
  "write_u64_le buf dst v ! j =
     (if dst \<le> j \<and> j < dst + 8 \<and> j < length buf then le_byte v (j - dst) else buf ! j)"
  unfolding write_u64_le_def le_byte_def by (rule fold_update_nth)

lemma bit_fold_or:
  "bit (fold (\<lambda>i v. v OR push_bit (i * 8) (ucast (bs i :: u8))) [0..<k] (0::u64)) n
     \<longleftrightarrow> n < 64 \<and> n div 8 < k \<and> bit (bs (n div 8)) (n mod 8)"
proof (induction k)
  case 0
  show ?case by simp
next
  case (Suc k)
  have a: "(k * 8 \<le> n \<and> n - k * 8 < 8) = (n div 8 = k)" by auto
  have b: "n - n div 8 * 8 = n mod 8" by presburger
  show ?case using Suc a b
    by (auto simp: bit_simps less_Suc_eq dest: bit_imp_le_length)
qed

lemma bit_le_byte: "bit (le_byte v i) m \<longleftrightarrow> m < 8 \<and> bit v (i * 8 + m)"
proof -
  have "le_byte v i = ucast (take_bit 8 (drop_bit (i * 8) v))"
    by (simp add: le_byte_def take_bit_eq_mask mask_eq_exp_minus_1)
  then show ?thesis
    by (auto simp: bit_simps)
qed

lemma read_u64_le_bytes:
  assumes "\<And>i. i < 8 \<Longrightarrow> buf ! (src + i) = le_byte v i"
  shows "read_u64_le buf src = v"
proof (rule bit_eqI)
  fix n
  assume "possible_bit TYPE(u64) n"
  then have n: "n < 64" by simp
  then have d: "n div 8 < 8" by auto
  have "bit (read_u64_le buf src) n \<longleftrightarrow> bit (buf ! (src + n div 8)) (n mod 8)"
    unfolding read_u64_le_def using n d by (simp add: bit_fold_or)
  also have "\<dots> \<longleftrightarrow> bit (le_byte v (n div 8)) (n mod 8)"
    using assms [OF d] by simp
  also have "\<dots> \<longleftrightarrow> bit v n"
    by (simp add: bit_le_byte mult.commute)
  finally show "bit (read_u64_le buf src) n \<longleftrightarrow> bit v n" .
qed

text \<open>The value read depends on the eight bytes at the offset only.\<close>

lemma read_u64_le_cong:
  assumes "\<And>i. i < 8 \<Longrightarrow> a ! (src + i) = b ! (src + i)"
  shows "read_u64_le a src = read_u64_le b src"
proof -
  have "map (\<lambda>i. a ! (src + i)) [0..<8] = map (\<lambda>i. b ! (src + i)) [0..<8]"
    using assms by simp
  then have "fold (\<lambda>i v. v OR push_bit (i * 8) (ucast (a ! (src + i)) :: u64)) [0..<8] 0
           = fold (\<lambda>i v. v OR push_bit (i * 8) (ucast (b ! (src + i)))) [0..<8] 0"
    using assms by (intro fold_cong) simp_all
  then show ?thesis by (simp add: read_u64_le_def)
qed

section \<open>The frame decoder stays inside the buffer\<close>

lemma clamp_le:
  "unat (if (of_nat (FRAME_SIZE - HEADER_SIZE) :: u64) < p
         then of_nat (FRAME_SIZE - HEADER_SIZE) else p)
   = min (unat p) (FRAME_SIZE - HEADER_SIZE)"
  using unat_CAP by (auto simp: word_less_nat_alt CAP_eq)

lemma decode_frame_eq:
  assumes "length frame = FRAME_SIZE"
  shows "decode_frame frame =
           Some (take (min (unat (read_u64_le frame 8)) (FRAME_SIZE - HEADER_SIZE))
                   (drop HEADER_SIZE frame))"
proof -
  have "HEADER_SIZE + min (unat (read_u64_le frame 8)) (FRAME_SIZE - HEADER_SIZE) \<le> length frame"
    using assms by (simp add: FRAME_SIZE_eq HEADER_SIZE_def)
  then show ?thesis
    by (simp only: decode_frame_def Let_def clamp_le read_range_def if_True)
qed

lemma length_write_bytes_full:
  "length frame = length bytes \<Longrightarrow> write_bytes frame 0 bytes = bytes"
  by (simp add: write_bytes_def)

lemma decode_loop_in_bounds:
  "length frame = FRAME_SIZE \<Longrightarrow> decode_loop frame pipe fout \<noteq> Inl OutOfBounds"
proof (induction frame pipe fout rule: decode_loop.induct)
  case (1 frame pipe fout)
  show ?case
  proof (cases "length (take FRAME_SIZE pipe) < FRAME_SIZE")
    case True
    then have "decode_loop frame pipe fout = Inr fout"
      by (subst decode_loop.simps) (simp only: if_True)
    then show ?thesis by simp
  next
    case False
    then have len: "length (take FRAME_SIZE pipe) = FRAME_SIZE" by simp
    then have w: "write_bytes frame 0 (take FRAME_SIZE pipe) = take FRAME_SIZE pipe"
      using "1.prems" by (simp only: length_write_bytes_full)
    obtain payload where d: "decode_frame (take FRAME_SIZE pipe) = Some payload"
      using decode_frame_eq [OF len] by blast
    have d': "decode_frame (write_bytes frame 0 (take FRAME_SIZE pipe)) = Some payload"
      using d w by simp
    have "decode_loop (write_bytes frame 0 (take FRAME_SIZE pipe)) (drop FRAME_SIZE pipe)
            (fout @ payload) \<noteq> Inl OutOfBounds"
      using "1.IH" [OF False d'] w len by simp
    moreover have "decode_loop frame pipe fout =
        decode_loop (write_bytes frame 0 (take FRAME_SIZE pipe)) (drop FRAME_SIZE pipe)
            (fout @ payload)"
      by (subst decode_loop.simps) (simp only: False if_False d' option.case)
    ultimately show ?thesis by simp
  qed
qed

text \<open>
  C2. Every frame that the decoding loop handles fills the buffer of \<open>FRAME_SIZE\<close> bytes.
  For such a frame the number of payload bytes taken after the header is the declared
  length clamped to \<open>FRAME_SIZE - HEADER_SIZE\<close>, so when the declared length exceeds that
  bound exactly the rest of the frame is taken; the read stays inside the buffer, and
  no run of \<open>decode_video\<close> reads outside it.
\<close>

theorem decode_clamp_in_bounds:
  "(length frame = FRAME_SIZE \<longrightarrow>
      decode_frame frame =
        Some (take (min (unat (read_u64_le frame 8)) (FRAME_SIZE - HEADER_SIZE))
                (drop HEADER_SIZE frame)))
   \<and> (length frame = FRAME_SIZE \<and> FRAME_SIZE - HEADER_SIZE < unat (read_u64_le frame 8) \<longrightarrow>
      decode_frame frame = Some (drop HEADER_SIZE frame))
   \<and> decode_video pipe fout_ok \<noteq> Inl OutOfBounds"
proof (intro conjI impI)
  assume "length frame = FRAME_SIZE"
  then show "decode_frame frame =
        Some (take (min (unat (read_u64_le frame 8)) (FRAME_SIZE - HEADER_SIZE))
                (drop HEADER_SIZE frame))"
    by (rule decode_frame_eq)
next
  assume a: "length frame = FRAME_SIZE \<and> FRAME_SIZE - HEADER_SIZE < unat (read_u64_le frame 8)"
  then have "min (unat (read_u64_le frame 8)) (FRAME_SIZE - HEADER_SIZE) = FRAME_SIZE - HEADER_SIZE"
    by simp
  then show "decode_frame frame = Some (drop HEADER_SIZE frame)"
    using a decode_frame_eq [of frame] by simp
next
  show "decode_video pipe fout_ok \<noteq> Inl OutOfBounds"
    by (cases pipe) (simp_all add: decode_video_def decode_loop_in_bounds)
qed

lemma le_byte_minus_1: "i < 8 \<Longrightarrow> le_byte (- 1) i = - 1"
  by (rule bit_eqI) (auto simp: bit_le_byte bit_simps)

lemma read_u64_le_replicate_255: "8 + 8 \<le> n \<Longrightarrow> read_u64_le (replicate n 255) 8 = - 1"
proof -
  assume n: "8 + 8 \<le> n"
  have "(255 :: u8) = - 1" by simp
  then show ?thesis
    using n by (intro read_u64_le_bytes) (simp add: le_byte_minus_1)
qed

theorem decode_clamp_in_bounds_witness:
  "length (replicate FRAME_SIZE (255 :: u8)) = FRAME_SIZE
   \<and> FRAME_SIZE - HEADER_SIZE < unat (read_u64_le (replicate FRAME_SIZE 255) 8)
   \<and> decode_frame (replicate FRAME_SIZE 255) = Some (drop HEADER_SIZE (replicate FRAME_SIZE 255))
   \<and> decode_frame (replicate FRAME_SIZE 255) =
        Some (take (min (unat (read_u64_le (replicate FRAME_SIZE 255) 8)) (FRAME_SIZE - HEADER_SIZE))
                (drop HEADER_SIZE (replicate FRAME_SIZE 255)))
   \<and> decode_video (Some (replicate FRAME_SIZE 255)) True \<noteq> Inl OutOfBounds"
proof -
  have r: "read_u64_le (replicate FRAME_SIZE 255) 8 = - 1"
    by (rule read_u64_le_replicate_255) (simp add: FRAME_SIZE_eq)
  have h: "FRAME_SIZE - HEADER_SIZE < unat (read_u64_le (replicate FRAME_SIZE 255) 8)"
    by (simp add: r CAP_eq unsigned_minus_1_eq_mask mask_eq_exp_minus_1)
  show ?thesis
    using h decode_clamp_in_bounds [of "replicate FRAME_SIZE 255" "Some (replicate FRAME_SIZE 255)" True]
    by simp
qed

section \<open>What one iteration of the encoder writes\<close>

lemma fold_noise:
  "fold (\<lambda>i (b, c). (b[i := g c], Suc c)) [lo..<n] (buf, k) = (r, c') \<Longrightarrow>
     length r = length buf \<and> c' = k + (n - lo) \<and>
     (\<forall>j. r ! j = (if lo \<le> j \<and> j < n \<and> j < length buf then g (k + (j - lo)) else buf ! j))"
proof (induction n arbitrary: r c')
  case 0
  then show ?case by auto
next
  case (Suc n)
  show ?case
  proof (cases "lo \<le> n")
    case False
    then show ?thesis using Suc.prems by auto
  next
    case True
    obtain r0 c0 where f: "fold (\<lambda>i (b, c). (b[i := g c], Suc c)) [lo..<n] (buf, k) = (r0, c0)"
      by (cases "fold (\<lambda>i (b, c). (b[i := g c], Suc c)) [lo..<n] (buf, k)") blast
    note ih = Suc.IH [OF f]
    have r: "r = r0[n := g c0]" and c: "c' = Suc c0"
      using Suc.prems True f by simp_all
    have c0: "c0 = k + (n - lo)" using ih by simp
    have "r ! j = (if lo \<le> j \<and> j < Suc n \<and> j < length buf then g (k + (j - lo)) else buf ! j)" for j
    proof (cases "j = n")
      case True
      then show ?thesis using ih r c0 \<open>lo \<le> n\<close> by (auto simp: list_update_beyond)
    next
      case False
      then show ?thesis using ih r by (auto simp: nth_list_update)
    qed
    then show ?thesis using ih r c True by auto
  qed
qed

lemma fill_noise_props:
  "length (fst (fill_noise rnd buf lo k)) = length buf"
  "snd (fill_noise rnd buf lo k) = k + (FRAME_SIZE - lo)"
  "fst (fill_noise rnd buf lo k) ! j =
     (if lo \<le> j \<and> j < FRAME_SIZE \<and> j < length buf
      then of_nat (rnd (k + (j - lo)) mod 256) else buf ! j)"
proof -
  obtain r c where f: "fill_noise rnd buf lo k = (r, c)"
    by (cases "fill_noise rnd buf lo k") blast
  note p = fold_noise [OF f [unfolded fill_noise_def]]
  show "length (fst (fill_noise rnd buf lo k)) = length buf" using p f by simp
  show "snd (fill_noise rnd buf lo k) = k + (FRAME_SIZE - lo)" using p f by simp
  show "fst (fill_noise rnd buf lo k) ! j =
     (if lo \<le> j \<and> j < FRAME_SIZE \<and> j < length buf
      then of_nat (rnd (k + (j - lo)) mod 256) else buf ! j)" using p f by simp
qed

lemma length_write_bytes:
  "off + length bytes \<le> length buf \<Longrightarrow> length (write_bytes buf off bytes) = length buf"
  by (simp add: write_bytes_def)

lemma write_bytes_nth:
  "off + length bytes \<le> length buf \<Longrightarrow>
   write_bytes buf off bytes ! j =
     (if off \<le> j \<and> j < off + length bytes then bytes ! (j - off) else buf ! j)"
  by (auto simp: write_bytes_def nth_append)

lemma next_payload_unat: "unat (payload64 s) = next_payload s"
  unfolding payload64_def by (subst unat_payload) (simp only: next_payload_def CAP_eq)

lemma encode_body_alt:
  "encode_body rnd s =
     \<lparr>enc_frame = fst (fill_noise rnd
         (write_bytes (write_u64_le (write_u64_le (enc_frame s) 0 (frame_index s)) 8 (payload64 s))
            HEADER_SIZE (take (next_payload s) (fin s)))
         (HEADER_SIZE + next_payload s) (rand_calls s)),
      fin = drop (next_payload s) (fin s),
      bytes_left = bytes_left s - payload64 s,
      frame_index = frame_index s + 1,
      rand_calls = snd (fill_noise rnd
         (write_bytes (write_u64_le (write_u64_le (enc_frame s) 0 (frame_index s)) 8 (payload64 s))
            HEADER_SIZE (take (next_payload s) (fin s)))
         (HEADER_SIZE + next_payload s) (rand_calls s)),
      enc_pipe = enc_pipe s @ fst (fill_noise rnd
         (write_bytes (write_u64_le (write_u64_le (enc_frame s) 0 (frame_index s)) 8 (payload64 s))
            HEADER_SIZE (take (next_payload s) (fin s)))
         (HEADER_SIZE + next_payload s) (rand_calls s))\<rparr>"
  by (simp only: encode_body_def Let_def payload64_def [symmetric] next_payload_unat)

lemma body_fields:
  "fin (encode_body rnd s) = drop (next_payload s) (fin s)"
  "frame_index (encode_body rnd s) = frame_index s + 1"
  "enc_pipe (encode_body rnd s) = enc_pipe s @ enc_frame (encode_body rnd s)"
  "rand_calls (encode_body rnd s) = rand_calls s + (FRAME_SIZE - (HEADER_SIZE + next_payload s))"
  by (simp_all add: encode_body_alt fill_noise_props)

lemma body_frame_length:
  assumes "enc_inv s"
  shows "length (enc_frame (encode_body rnd s)) = FRAME_SIZE"
proof -
  have "HEADER_SIZE + length (take (next_payload s) (fin s)) \<le> FRAME_SIZE"
    by (simp add: next_payload_def CAP_eq FRAME_SIZE_eq HEADER_SIZE_def)
  then show ?thesis using assms
    by (simp add: encode_body_alt fill_noise_props length_write_bytes enc_inv_def)
qed

lemma body_frame_nth:
  assumes "enc_inv s" and "j < FRAME_SIZE"
  shows "enc_frame (encode_body rnd s) ! j =
     (if j < 8 then le_byte (frame_index s) j
      else if j < HEADER_SIZE
        then le_byte (payload64 s) (j - 8)
      else if j < HEADER_SIZE + next_payload s then fin s ! (j - HEADER_SIZE)
      else of_nat (rnd (rand_calls s + (j - (HEADER_SIZE + next_payload s))) mod 256))"
proof -
  have len: "length (enc_frame s) = FRAME_SIZE" and bl: "unat (bytes_left s) = length (fin s)"
    using assms(1) by (simp_all add: enc_inv_def)
  have np: "next_payload s \<le> length (fin s)" "next_payload s \<le> FRAME_SIZE - HEADER_SIZE"
    using bl by (simp_all add: next_payload_def)
  define f1 where "f1 = write_u64_le (enc_frame s) 0 (frame_index s)"
  define f2 where "f2 = write_u64_le f1 8 (payload64 s)"
  define f3 where "f3 = write_bytes f2 HEADER_SIZE (take (next_payload s) (fin s))"
  have l2: "length f2 = FRAME_SIZE" by (simp add: f2_def f1_def len)
  have fits: "HEADER_SIZE + length (take (next_payload s) (fin s)) \<le> length f2"
    using np l2 by (simp add: CAP_eq FRAME_SIZE_eq HEADER_SIZE_def)
  have l3: "length f3 = FRAME_SIZE"
    using fits l2 by (simp add: f3_def length_write_bytes)
  have e: "enc_frame (encode_body rnd s)
         = fst (fill_noise rnd f3 (HEADER_SIZE + next_payload s) (rand_calls s))"
    by (simp add: encode_body_alt f1_def f2_def f3_def)
  have n1: "f1 ! j = (if j < 8 then le_byte (frame_index s) j else enc_frame s ! j)"
    using assms(2) len by (simp add: f1_def write_u64_le_nth)
  have n2: "f2 ! j = (if 8 \<le> j \<and> j < 16 then le_byte (payload64 s) (j - 8) else f1 ! j)"
    using assms(2) len by (simp add: f2_def f1_def write_u64_le_nth)
  have n3: "f3 ! j = (if HEADER_SIZE \<le> j \<and> j < HEADER_SIZE + next_payload s
              then fin s ! (j - HEADER_SIZE) else f2 ! j)"
    using np by (auto simp: f3_def write_bytes_nth [OF fits])
  show ?thesis
    using assms(2) l3 n1 n2 n3
    by (auto simp: e fill_noise_props HEADER_SIZE_def)
qed

lemma body_inv:
  assumes "enc_inv s"
  shows "enc_inv (encode_body rnd s)"
proof -
  have "unat (bytes_left s) = length (fin s)" using assms by (simp add: enc_inv_def)
  then have "unat (bytes_left (encode_body rnd s)) = length (fin (encode_body rnd s))"
    by (simp add: bytes_left_body body_fields next_payload_def CAP_eq)
  then show ?thesis
    using body_frame_length [OF assms] by (simp add: enc_inv_def)
qed

lemma body_declared:
  assumes "enc_inv s"
  shows "read_u64_le (enc_frame (encode_body rnd s)) 8 = payload64 s"
proof (rule read_u64_le_bytes)
  fix i :: nat
  assume "i < 8"
  then show "enc_frame (encode_body rnd s) ! (8 + i) = le_byte (payload64 s) i"
    using body_frame_nth [OF assms, of "8 + i" rnd]
    by (simp add: FRAME_SIZE_eq HEADER_SIZE_def)
qed

lemma body_payload:
  assumes "enc_inv s"
  shows "take (next_payload s) (drop HEADER_SIZE (enc_frame (encode_body rnd s)))
           = take (next_payload s) (fin s)"
proof (rule nth_equalityI)
  have bl: "unat (bytes_left s) = length (fin s)"
    using assms by (simp add: enc_inv_def)
  have np: "next_payload s \<le> length (fin s)" "next_payload s \<le> FRAME_SIZE - HEADER_SIZE"
    using bl by (simp_all add: next_payload_def)
  show "length (take (next_payload s) (drop HEADER_SIZE (enc_frame (encode_body rnd s))))
          = length (take (next_payload s) (fin s))"
    using np by (simp add: body_frame_length [OF assms])
  fix i
  assume "i < length (take (next_payload s) (drop HEADER_SIZE (enc_frame (encode_body rnd s))))"
  then have i: "i < next_payload s" by simp
  then have "HEADER_SIZE + i < FRAME_SIZE" using np by simp
  then have "enc_frame (encode_body rnd s) ! (HEADER_SIZE + i) = fin s ! i"
    using i by (simp add: body_frame_nth [OF assms] HEADER_SIZE_def)
  then show "take (next_payload s) (drop HEADER_SIZE (enc_frame (encode_body rnd s))) ! i
               = take (next_payload s) (fin s) ! i"
    using i np by (simp add: body_frame_length [OF assms])
qed

lemma decode_body_frame:
  assumes "enc_inv s"
  shows "decode_frame (enc_frame (encode_body rnd s)) = Some (take (next_payload s) (fin s))"
proof -
  have "min (unat (read_u64_le (enc_frame (encode_body rnd s)) 8)) (FRAME_SIZE - HEADER_SIZE)
          = next_payload s"
    by (simp only: body_declared [OF assms] next_payload_unat) (simp add: next_payload_def)
  then show ?thesis
    using decode_frame_eq [OF body_frame_length [OF assms, of rnd]]
    by (simp only: body_payload [OF assms])
qed

section \<open>The two loops\<close>

lemma unat_of_nat_u64: "n < 2 ^ 64 \<Longrightarrow> unat (of_nat n :: u64) = n"
  by (simp add: unat_of_nat)

lemma enc_init_inv: "length content < 2 ^ 64 \<Longrightarrow> enc_inv (enc_init content)"
  by (simp add: enc_inv_def enc_init_def unat_of_nat_u64)

lemma encode_loop_pipe:
  "enc_pipe (encode_loop rnd s) = enc_pipe s @ concat (frames_written rnd s)"
proof (induction rnd s rule: encode_loop.induct)
  case (1 rnd s)
  show ?case
  proof (cases "0 < bytes_left s")
    case True
    have "encode_loop rnd s = encode_loop rnd (encode_body rnd s)"
      by (subst encode_loop.simps) (simp only: True if_True)
    moreover have "frames_written rnd s
        = enc_frame (encode_body rnd s) # frames_written rnd (encode_body rnd s)"
      by (subst frames_written.simps) (simp only: True if_True)
    ultimately show ?thesis
      using "1.IH" [OF True] by (simp add: body_fields)
  next
    case False
    have "encode_loop rnd s = s"
      by (subst encode_loop.simps) (simp only: False if_False)
    moreover have "frames_written rnd s = []"
      by (subst frames_written.simps) (simp only: False if_False)
    ultimately show ?thesis by simp
  qed
qed

lemma encode_file_stream:
  "encode_file rnd (Some content) True = Inr (concat (frames_written rnd (enc_init content)))"
  by (simp add: encode_file_def encode_loop_pipe) (simp add: enc_init_def)

lemma decode_loop_short:
  "length pipe < FRAME_SIZE \<Longrightarrow> decode_loop frame pipe fout = Inr fout"
  by (subst decode_loop.simps) simp

lemma decode_loop_step:
  assumes "length f = FRAME_SIZE" and "length frame = FRAME_SIZE"
    and "decode_frame f = Some payload"
  shows "decode_loop frame (f @ rest) fout = decode_loop f rest (fout @ payload)"
proof -
  have t: "take FRAME_SIZE (f @ rest) = f" and d: "drop FRAME_SIZE (f @ rest) = rest"
    using assms(1) by simp_all
  have w: "write_bytes frame 0 f = f"
    using assms(1,2) by (simp only: length_write_bytes_full)
  have n: "\<not> length f < FRAME_SIZE" using assms(1) by simp
  show ?thesis
    by (subst decode_loop.simps) (simp only: t d w n if_False assms(3) option.case)
qed

lemma frames_of_short: "length stream < FRAME_SIZE \<Longrightarrow> frames_of stream = []"
  by (subst frames_of.simps) simp

lemma frames_of_step: "length f = FRAME_SIZE \<Longrightarrow> frames_of (f @ rest) = f # frames_of rest"
  by (subst frames_of.simps) simp

lemma frames_written_all:
  "enc_inv s \<Longrightarrow>
     (length frame = FRAME_SIZE \<longrightarrow>
        decode_loop frame (concat (frames_written rnd s)) fout = Inr (fout @ fin s))
     \<and> frames_of (concat (frames_written rnd s)) = frames_written rnd s
     \<and> sum_list (map (\<lambda>f. unat (read_u64_le f 8)) (frames_written rnd s)) = length (fin s)"
proof (induction rnd s arbitrary: frame fout rule: frames_written.induct)
  case (1 rnd s)
  have bl: "unat (bytes_left s) = length (fin s)"
    using "1.prems" by (simp add: enc_inv_def)
  show ?case
  proof (cases "0 < bytes_left s")
    case False
    then have "bytes_left s = 0" using word_neq_0_conv [of "bytes_left s"] by blast
    then have e: "fin s = []" using bl by simp
    have fw: "frames_written rnd s = []"
      by (subst frames_written.simps) (simp only: False if_False)
    show ?thesis
      by (simp add: fw e decode_loop_short frames_of_short FRAME_SIZE_eq)
  next
    case True
    let ?s' = "encode_body rnd s"
    let ?f = "enc_frame ?s'"
    have fw: "frames_written rnd s = ?f # frames_written rnd ?s'"
      by (subst frames_written.simps) (simp only: True if_True)
    have inv': "enc_inv ?s'" by (rule body_inv [OF "1.prems"])
    have lf: "length ?f = FRAME_SIZE" by (rule body_frame_length [OF "1.prems"])
    have df: "decode_frame ?f = Some (take (next_payload s) (fin s))"
      by (rule decode_body_frame [OF "1.prems"])
    note ih = "1.IH" [OF True inv']
    have a: "decode_loop frame (concat (frames_written rnd s)) fout = Inr (fout @ fin s)"
      if "length frame = FRAME_SIZE"
      using ih [of ?f "fout @ take (next_payload s) (fin s)"] lf
      by (simp add: fw decode_loop_step [OF lf that df] body_fields)
    have b: "frames_of (concat (frames_written rnd s)) = frames_written rnd s"
      using ih [of frame fout] by (simp add: fw frames_of_step [OF lf])
    have "unat (read_u64_le ?f 8) = next_payload s"
      by (simp only: body_declared [OF "1.prems"] next_payload_unat)
    moreover have "next_payload s \<le> length (fin s)"
      using bl by (simp add: next_payload_def)
    ultimately have c: "sum_list (map (\<lambda>f. unat (read_u64_le f 8)) (frames_written rnd s))
        = length (fin s)"
      using ih [of frame fout] by (simp add: fw body_fields)
    show ?thesis using a b c by blast
  qed
qed

section \<open>Round trip\<close>

text \<open>
  C1. The frame that one iteration of the encoder builds from at most
  \<open>FRAME_SIZE - HEADER_SIZE\<close> remaining bytes \<open>b\<close> decodes to exactly \<open>b\<close>, whatever the
  buffer held before, the frame index and the noise. And for an input file of any length
  below \<open>2 ^ 64\<close> (the range of \<open>file_size\<close>), \<open>decode_video\<close> applied to the stream that
  \<open>encode_file\<close> wrote returns the input, the codec in between being lossless.
\<close>

theorem codec_round_trip:
  "(length b \<le> FRAME_SIZE - HEADER_SIZE \<and> length buf = FRAME_SIZE \<longrightarrow>
      decode_frame (enc_frame (encode_body rnd
        \<lparr>enc_frame = buf, fin = b, bytes_left = of_nat (length b),
         frame_index = idx, rand_calls = k, enc_pipe = out\<rparr>)) = Some b)
   \<and> (length input < 2 ^ 64 \<longrightarrow>
      (\<exists>stream. encode_file rnd (Some input) True = Inr stream
         \<and> decode_video (Some stream) True = Inr input))"
proof (intro conjI impI)
  let ?s = "\<lparr>enc_frame = buf, fin = b, bytes_left = of_nat (length b),
         frame_index = idx, rand_calls = k, enc_pipe = out\<rparr>"
  assume a: "length b \<le> FRAME_SIZE - HEADER_SIZE \<and> length buf = FRAME_SIZE"
  then have "length b < 2 ^ 64" by (simp add: CAP_eq)
  then have u: "unat (of_nat (length b) :: u64) = length b" by (rule unat_of_nat_u64)
  have inv: "enc_inv ?s" using a u by (simp add: enc_inv_def)
  have "next_payload ?s = length b" using a u by (simp add: next_payload_def)
  then show "decode_frame (enc_frame (encode_body rnd ?s)) = Some b"
    using decode_body_frame [OF inv, of rnd] by simp
next
  assume "length input < 2 ^ 64"
  then have inv: "enc_inv (enc_init input)" by (rule enc_init_inv)
  have "decode_loop (replicate FRAME_SIZE 0) (concat (frames_written rnd (enc_init input))) []
          = Inr ([] @ fin (enc_init input))"
    using frames_written_all [OF inv, of "replicate FRAME_SIZE 0" rnd "[]"] by simp
  then have "decode_video (Some (concat (frames_written rnd (enc_init input)))) True = Inr input"
    by (simp add: decode_video_def enc_init_def)
  then show "\<exists>stream. encode_file rnd (Some input) True = Inr stream
         \<and> decode_video (Some stream) True = Inr input"
    by (simp add: encode_file_stream)
qed

theorem codec_round_trip_witness:
  "length [1, 2, 3 :: u8] \<le> FRAME_SIZE - HEADER_SIZE
   \<and> length (replicate FRAME_SIZE (0 :: u8)) = FRAME_SIZE
   \<and> decode_frame (enc_frame (encode_body (\<lambda>k. k)
        \<lparr>enc_frame = replicate FRAME_SIZE 0, fin = [1, 2, 3], bytes_left = 3,
         frame_index = 0, rand_calls = 0, enc_pipe = []\<rparr>)) = Some [1, 2, 3]
   \<and> length [1, 2, 3 :: u8] < 2 ^ 64
   \<and> (\<exists>stream. encode_file (\<lambda>k. k) (Some [1, 2, 3]) True = Inr stream
         \<and> decode_video (Some stream) True = Inr [1, 2, 3])"
  using codec_round_trip [where b = "[1, 2, 3]" and buf = "replicate FRAME_SIZE 0"
      and rnd = "\<lambda>k. k" and idx = 0 and k = 0 and out = "[]" and input = "[1, 2, 3]"]
  by (simp add: CAP_eq)

section \<open>The frame queue: occupancy, shutdown and order\<close>

lemma apply_op_max_frames: "max_frames (apply_op fq x) = max_frames fq"
  by (cases x) (simp_all add: push_def pop_def close_def split: list.splits)

lemma apply_op_bounded:
  "length (q fq) \<le> max_frames fq \<Longrightarrow> length (q (apply_op fq x)) \<le> max_frames fq"
  by (cases x) (auto simp: push_def pop_def close_def split: list.splits)

lemma run_bounded:
  "length (q fq) \<le> max_frames fq \<Longrightarrow>
     length (q (foldl apply_op fq ops)) \<le> max_frames fq
     \<and> max_frames (foldl apply_op fq ops) = max_frames fq"
proof (induction ops arbitrary: fq)
  case Nil
  then show ?case by simp
next
  case (Cons x ops)
  have "length (q (apply_op fq x)) \<le> max_frames (apply_op fq x)"
    using Cons.prems by (simp add: apply_op_bounded apply_op_max_frames)
  from Cons.IH [OF this] show ?case by (simp add: apply_op_max_frames)
qed

text \<open>
  C3. After any sequence of \<open>push\<close>, \<open>pop\<close> and \<open>close\<close> calls on a queue created with
  bound \<open>n\<close> (the program uses \<open>QUEUE_MAX_FRAMES\<close>), the deque holds at most \<open>n\<close> frames,
  however many frames were offered.
\<close>

theorem queue_occupancy_bounded:
  "length (q (foldl apply_op (FrameQueue_init n) ops)) \<le> n
   \<and> length (q (foldl apply_op (FrameQueue_init QUEUE_MAX_FRAMES) ops)) \<le> QUEUE_MAX_FRAMES"
  using run_bounded [of "FrameQueue_init n" ops]
    run_bounded [of "FrameQueue_init QUEUE_MAX_FRAMES" ops]
  by (simp add: FrameQueue_init_def)

theorem queue_occupancy_bounded_witness:
  "length (q (foldl apply_op (FrameQueue_init 1) [Push [1], Push [2], Pop, Push [3], Close])) \<le> 1
   \<and> length (q (foldl apply_op (FrameQueue_init QUEUE_MAX_FRAMES)
        [Push [1], Push [2], Pop, Push [3], Close])) \<le> QUEUE_MAX_FRAMES"
  using queue_occupancy_bounded [of 1 "[Push [1], Push [2], Pop, Push [3], Close]"]
  by simp

lemma run_closed: "closed fq \<Longrightarrow> closed (foldl apply_op fq ops)"
proof (induction ops arbitrary: fq)
  case Nil
  then show ?case by simp
next
  case (Cons x ops)
  have "closed (apply_op fq x)"
    using Cons.prems by (cases x) (simp_all add: push_def pop_def close_def split: list.splits)
  then show ?case using Cons.IH by simp
qed

text \<open>
  C4. \<open>push\<close> on an open queue that is full stays blocked; on a closed queue it returns
  \<open>false\<close> and leaves the queue as it was; on an open queue with room it appends the
  frame and returns \<open>true\<close>. Once \<open>close\<close> has run, whatever calls follow, a further
  \<open>push\<close> returns \<open>false\<close> and changes nothing.
\<close>

theorem push_contract:
  "(\<not> closed fq \<and> max_frames fq \<le> length (q fq) \<longrightarrow> push fq buf = (Blocked, fq))
   \<and> (closed fq \<longrightarrow> push fq buf = (Returned False, fq))
   \<and> (\<not> closed fq \<and> length (q fq) < max_frames fq \<longrightarrow>
        push fq buf = (Returned True, fq\<lparr>q := q fq @ [buf]\<rparr>))
   \<and> push (foldl apply_op (close fq) ops) buf = (Returned False, foldl apply_op (close fq) ops)"
proof -
  have "closed (foldl apply_op (close fq) ops)"
    by (rule run_closed) (simp add: close_def)
  then have "push (foldl apply_op (close fq) ops) buf
      = (Returned False, foldl apply_op (close fq) ops)"
    by (simp add: push_def)
  then show ?thesis by (auto simp: push_def)
qed

theorem push_contract_witness:
  "\<not> closed (FrameQueue_init 1) \<and> length (q (FrameQueue_init 1)) < max_frames (FrameQueue_init 1)
   \<and> push (FrameQueue_init 1) [7] = (Returned True, \<lparr>q = [[7]], closed = False, max_frames = 1\<rparr>)
   \<and> max_frames \<lparr>q = [[7]], closed = False, max_frames = 1\<rparr>
        \<le> length (q \<lparr>q = [[7]], closed = False, max_frames = 1\<rparr>)
   \<and> push \<lparr>q = [[7]], closed = False, max_frames = 1\<rparr> [8]
        = (Blocked, \<lparr>q = [[7]], closed = False, max_frames = 1\<rparr>)
   \<and> closed \<lparr>q = [[7]], closed = True, max_frames = 1\<rparr>
   \<and> push \<lparr>q = [[7]], closed = True, max_frames = 1\<rparr> [8]
        = (Returned False, \<lparr>q = [[7]], closed = True, max_frames = 1\<rparr>)
   \<and> push (foldl apply_op (close (FrameQueue_init 1)) [Pop]) [9]
        = (Returned False, foldl apply_op (close (FrameQueue_init 1)) [Pop])"
  using push_contract [of "FrameQueue_init 1" "[7]" "[Pop]"]
    push_contract [of "\<lparr>q = [[7]], closed = False, max_frames = 1\<rparr>" "[8]" "[]"]
    push_contract [of "\<lparr>q = [[7]], closed = True, max_frames = 1\<rparr>" "[8]" "[]"]
    push_contract [of "FrameQueue_init 1" "[9]" "[Pop]"]
  by (simp add: FrameQueue_init_def)

lemma fifo_step:
  "popped fq [x] @ q (apply_op fq x) = q fq @ pushed fq [x]"
  by (cases x) (auto simp: push_def pop_def close_def split: list.splits)

lemma fifo_run:
  "popped fq ops @ q (foldl apply_op fq ops) = q fq @ pushed fq ops"
proof (induction ops arbitrary: fq)
  case Nil
  show ?case by simp
next
  case (Cons x ops)
  have p: "popped fq (x # ops) = popped fq [x] @ popped (apply_op fq x) ops"
    by (cases x) simp_all
  have u: "pushed fq (x # ops) = pushed fq [x] @ pushed (apply_op fq x) ops"
    by (cases x) simp_all
  have "popped fq (x # ops) @ q (foldl apply_op fq (x # ops))
      = popped fq [x] @ q (apply_op fq x) @ pushed (apply_op fq x) ops"
    using Cons.IH [of "apply_op fq x"] by (simp add: p)
  also have "\<dots> = q fq @ pushed fq [x] @ pushed (apply_op fq x) ops"
    using fifo_step [of fq x] by simp
  finally show ?case by (simp add: u)
qed

text \<open>
  C5. \<open>pop\<close> on an open, empty queue stays blocked; on a closed, empty queue it returns
  \<open>false\<close>; otherwise it removes and returns the front frame, the one that entered first.
  For every sequence of calls on a new queue, the frames popped so far followed by the
  frames still queued are exactly the frames accepted by \<open>push\<close>, in push order.
\<close>

theorem pop_contract_fifo:
  "(q fq = [] \<and> \<not> closed fq \<longrightarrow> pop fq = (Blocked, fq))
   \<and> (q fq = [] \<and> closed fq \<longrightarrow> pop fq = (Returned None, fq))
   \<and> (q fq = front # rest \<longrightarrow> pop fq = (Returned (Some front), fq\<lparr>q := rest\<rparr>))
   \<and> popped (FrameQueue_init n) ops @ q (foldl apply_op (FrameQueue_init n) ops)
        = pushed (FrameQueue_init n) ops"
  using fifo_run [of "FrameQueue_init n" ops]
  by (auto simp: pop_def FrameQueue_init_def)

theorem pop_contract_fifo_witness:
  "q (FrameQueue_init 2) = [] \<and> \<not> closed (FrameQueue_init 2)
   \<and> pop (FrameQueue_init 2) = (Blocked, FrameQueue_init 2)
   \<and> q \<lparr>q = [], closed = True, max_frames = 2\<rparr> = []
   \<and> closed \<lparr>q = [], closed = True, max_frames = 2\<rparr>
   \<and> pop \<lparr>q = [], closed = True, max_frames = 2\<rparr>
        = (Returned None, \<lparr>q = [], closed = True, max_frames = 2\<rparr>)
   \<and> q \<lparr>q = [[1], [2]], closed = True, max_frames = 2\<rparr> = [1] # [[2]]
   \<and> pop \<lparr>q = [[1], [2]], closed = True, max_frames = 2\<rparr>
        = (Returned (Some [1]), \<lparr>q = [[2]], closed = True, max_frames = 2\<rparr>)
   \<and> popped (FrameQueue_init 2) [Push [1], Push [2], Pop, Close, Pop, Pop]
        @ q (foldl apply_op (FrameQueue_init 2) [Push [1], Push [2], Pop, Close, Pop, Pop])
        = pushed (FrameQueue_init 2) [Push [1], Push [2], Pop, Close, Pop, Pop]
   \<and> popped (FrameQueue_init 2) [Push [1], Push [2], Pop, Close, Pop, Pop] = [[1], [2]]"
proof -
  have "popped (FrameQueue_init 2) [Push [1], Push [2], Pop, Close, Pop, Pop] = [[1], [2]]"
    by (simp add: FrameQueue_init_def push_def pop_def close_def)
  then show ?thesis
    using pop_contract_fifo [of "FrameQueue_init 2" "[]" "[]" 2
        "[Push [1], Push [2], Pop, Close, Pop, Pop]"]
      pop_contract_fifo [of "\<lparr>q = [], closed = True, max_frames = 2\<rparr>" "[]" "[]" 2 "[]"]
      pop_contract_fifo [of "\<lparr>q = [[1], [2]], closed = True, max_frames = 2\<rparr>" "[1]" "[[2]]" 2 "[]"]
    by (simp add: FrameQueue_init_def)
qed

section \<open>Headers of the encoder's frames\<close>

text \<open>
  C8. For an input file shorter than \<open>2 ^ 64\<close> bytes, the stream written by
  \<open>encode_file\<close> consists of whole frames, and the payload lengths declared in bytes
  8 to 15 of their headers add up to the size of the file.
\<close>

theorem payload_length_sum:
  "length input < 2 ^ 64 \<longrightarrow>
     (\<exists>stream. encode_file rnd (Some input) True = Inr stream
        \<and> concat (frames_of stream) = stream
        \<and> sum_list (map (\<lambda>f. unat (read_u64_le f 8)) (frames_of stream)) = length input)"
proof
  assume "length input < 2 ^ 64"
  then have inv: "enc_inv (enc_init input)" by (rule enc_init_inv)
  have "fin (enc_init input) = input" by (simp add: enc_init_def)
  then show "\<exists>stream. encode_file rnd (Some input) True = Inr stream
        \<and> concat (frames_of stream) = stream
        \<and> sum_list (map (\<lambda>f. unat (read_u64_le f 8)) (frames_of stream)) = length input"
    using frames_written_all [OF inv, of "[]" rnd "[]"]
    by (simp add: encode_file_stream)
qed

theorem payload_length_sum_witness:
  "length [1, 2, 3 :: u8] < 2 ^ 64
   \<and> (\<exists>stream. encode_file (\<lambda>k. k) (Some [1, 2, 3]) True = Inr stream
        \<and> concat (frames_of stream) = stream
        \<and> sum_list (map (\<lambda>f. unat (read_u64_le f 8)) (frames_of stream)) = length [1, 2, 3 :: u8])"
  using payload_length_sum [of "[1, 2, 3]" "\<lambda>k. k"] by simp

section \<open>Filler bytes\<close>

lemma single_frame_file:
  assumes "0 < length content" and "length content \<le> FRAME_SIZE - HEADER_SIZE"
  shows "encode_file rnd (Some content) True
           = Inr (enc_frame (encode_body rnd (enc_init content)))"
    and "next_payload (enc_init content) = length content"
    and "enc_inv (enc_init content)"
proof -
  have lt: "length content < 2 ^ 64" using assms(2) by (simp add: CAP_eq)
  then show inv: "enc_inv (enc_init content)" by (rule enc_init_inv)
  have u: "unat (bytes_left (enc_init content)) = length content"
    using lt by (simp add: enc_init_def unat_of_nat_u64)
  then show np: "next_payload (enc_init content) = length content"
    using assms(2) by (simp add: next_payload_def)
  have pos: "0 < bytes_left (enc_init content)"
    using u assms(1) by (simp add: word_less_nat_alt)
  have "unat (bytes_left (encode_body rnd (enc_init content))) = 0"
    using u assms(2) by (simp add: bytes_left_body CAP_eq)
  then have z: "\<not> 0 < bytes_left (encode_body rnd (enc_init content))"
    by (simp add: word_less_nat_alt)
  have "frames_written rnd (encode_body rnd (enc_init content)) = []"
    by (subst frames_written.simps) (simp only: z if_False)
  then have "frames_written rnd (enc_init content)
      = [enc_frame (encode_body rnd (enc_init content))]"
    by (subst frames_written.simps) (simp only: pos if_True)
  then show "encode_file rnd (Some content) True
           = Inr (enc_frame (encode_body rnd (enc_init content)))"
    by (simp add: encode_file_stream)
qed

lemma filler_byte:
  assumes "enc_inv s" and "HEADER_SIZE + next_payload s \<le> j" and "j < FRAME_SIZE"
  shows "enc_frame (encode_body rnd s) ! j
           = of_nat (rnd (rand_calls s + (j - (HEADER_SIZE + next_payload s))) mod 256)"
  using assms(2) by (simp add: body_frame_nth [OF assms(1,3)] HEADER_SIZE_def)

lemma byte_of_nat_zero: "(of_nat (n mod 256) :: u8) = 0 \<longleftrightarrow> n mod 256 = 0"
proof
  assume "(of_nat (n mod 256) :: u8) = 0"
  then have "unat (of_nat (n mod 256) :: u8) = 0" by simp
  then show "n mod 256 = 0" by (simp add: unat_of_nat)
next
  assume "n mod 256 = 0"
  then show "(of_nat (n mod 256) :: u8) = 0" by simp
qed

text \<open>
  C7, as the code has it. In every iteration of the encoding loop (the invariant
  \<open>enc_inv\<close> holds at each of them), the filler byte at position \<open>j\<close>, from
  \<open>HEADER_SIZE + payload\<close> up to \<open>FRAME_SIZE\<close>, is \<open>(uint8_t)(rand() % 256)\<close> for the
  call of \<open>rand()\<close> that belongs to it: pseudo-random noise that may take any of the 256
  values. It is zero exactly when that call returns a multiple of 256.
\<close>

theorem filler_is_noise:
  "enc_inv s \<and> HEADER_SIZE + next_payload s \<le> j \<and> j < FRAME_SIZE \<longrightarrow>
     enc_frame (encode_body rnd s) ! j
       = of_nat (rnd (rand_calls s + (j - (HEADER_SIZE + next_payload s))) mod 256)
     \<and> (enc_frame (encode_body rnd s) ! j = 0
          \<longleftrightarrow> rnd (rand_calls s + (j - (HEADER_SIZE + next_payload s))) mod 256 = 0)"
proof
  assume a: "enc_inv s \<and> HEADER_SIZE + next_payload s \<le> j \<and> j < FRAME_SIZE"
  then have "enc_frame (encode_body rnd s) ! j
       = of_nat (rnd (rand_calls s + (j - (HEADER_SIZE + next_payload s))) mod 256)"
    by (simp add: filler_byte)
  then show "enc_frame (encode_body rnd s) ! j
       = of_nat (rnd (rand_calls s + (j - (HEADER_SIZE + next_payload s))) mod 256)
     \<and> (enc_frame (encode_body rnd s) ! j = 0
          \<longleftrightarrow> rnd (rand_calls s + (j - (HEADER_SIZE + next_payload s))) mod 256 = 0)"
    by (simp only: byte_of_nat_zero)
qed

theorem filler_is_noise_witness:
  "enc_inv (enc_init [1]) \<and> HEADER_SIZE + next_payload (enc_init [1]) \<le> 20 \<and> 20 < FRAME_SIZE
   \<and> enc_frame (encode_body (\<lambda>k. 300 + k) (enc_init [1])) ! 20 = 47
   \<and> enc_frame (encode_body (\<lambda>k. 300 + k) (enc_init [1])) ! 20 \<noteq> 0"
proof -
  have np: "next_payload (enc_init [1]) = 1" and inv: "enc_inv (enc_init [1])"
    using single_frame_file(2,3) [where content = "[1]"] by (simp_all add: CAP_eq)
  have h: "enc_inv (enc_init [1]) \<and> HEADER_SIZE + next_payload (enc_init [1]) \<le> 20
      \<and> 20 < FRAME_SIZE"
    using inv by (simp add: np HEADER_SIZE_def FRAME_SIZE_eq)
  have r: "rand_calls (enc_init [1]) = 0" by (simp add: enc_init_def)
  show ?thesis
    using h filler_is_noise [of "enc_init [1]" 20 "\<lambda>k. 300 + k"]
    by (simp add: np r HEADER_SIZE_def)
qed

text \<open>
  Filler bytes can be zero: for the one-byte file \<open>[1]\<close> the encoder writes one frame
  that declares a payload of one byte, and with a generator that returns a multiple of 256
  the first filler byte, at position \<open>HEADER_SIZE + 1\<close>, is zero.
\<close>

theorem filler_zero_counterexample:
  "encode_file zero_rand (Some [1]) True
     = Inr (enc_frame (encode_body zero_rand (enc_init [1])))
   \<and> unat (read_u64_le (enc_frame (encode_body zero_rand (enc_init [1]))) 8) = 1
   \<and> HEADER_SIZE + 1 < FRAME_SIZE
   \<and> enc_frame (encode_body zero_rand (enc_init [1])) ! (HEADER_SIZE + 1) = 0"
proof -
  have np: "next_payload (enc_init [1]) = 1" and inv: "enc_inv (enc_init [1])"
    and e: "encode_file zero_rand (Some [1]) True
     = Inr (enc_frame (encode_body zero_rand (enc_init [1])))"
    using single_frame_file(2,3) [where content = "[1]"]
      single_frame_file(1) [where content = "[1]" and rnd = zero_rand]
    by (simp_all add: CAP_eq)
  have d: "unat (read_u64_le (enc_frame (encode_body zero_rand (enc_init [1]))) 8) = 1"
    by (simp only: body_declared [OF inv] next_payload_unat np)
  have b: "HEADER_SIZE + 1 < FRAME_SIZE" by (simp add: HEADER_SIZE_def FRAME_SIZE_eq)
  have "enc_frame (encode_body zero_rand (enc_init [1])) ! (HEADER_SIZE + 1) = 0"
    using filler_byte [OF inv _ b, of zero_rand] by (simp add: np zero_rand_def)
  then show ?thesis using e d b by simp
qed

section \<open>The frame index is not used\<close>

lemma decode_loop_payloads:
  "list_all (\<lambda>f. length f = FRAME_SIZE) fs \<Longrightarrow> length frame = FRAME_SIZE
   \<Longrightarrow> decode_loop frame (concat fs) fout = Inr (fout @ concat (map frame_payload fs))"
proof (induction fs arbitrary: frame fout)
  case Nil
  then show ?case by (simp add: decode_loop_short FRAME_SIZE_eq)
next
  case (Cons f fs)
  then have lf: "length f = FRAME_SIZE" and rest: "list_all (\<lambda>f. length f = FRAME_SIZE) fs"
    by simp_all
  have pf: "decode_frame f = Some (frame_payload f)"
    unfolding frame_payload_def by (rule decode_frame_eq [OF lf])
  have "decode_loop frame (concat (f # fs)) fout
      = decode_loop f (concat fs) (fout @ frame_payload f)"
    using decode_loop_step [OF lf Cons.prems(2) pf, of "concat fs"] by simp
  then show ?case using Cons.IH [OF rest lf] by simp
qed

lemma decode_video_payloads:
  "list_all (\<lambda>f. length f = FRAME_SIZE) fs \<Longrightarrow>
     decode_video (Some (concat fs)) True = Inr (concat (map frame_payload fs))"
  using decode_loop_payloads [of fs "replicate FRAME_SIZE 0" "[]"]
  by (simp add: decode_video_def)

lemma same_payloads:
  "list_all2 (\<lambda>f g. length f = FRAME_SIZE \<and> length g = FRAME_SIZE
      \<and> frame_payload f = frame_payload g) fs gs \<Longrightarrow>
   list_all (\<lambda>f. length f = FRAME_SIZE) fs \<and> list_all (\<lambda>f. length f = FRAME_SIZE) gs
   \<and> map frame_payload fs = map frame_payload gs"
  by (induction fs gs rule: list_all2_induct) simp_all

lemma frame_payload_index:
  assumes "length f = FRAME_SIZE"
  shows "frame_payload (write_u64_le f 0 idx) = frame_payload f"
proof -
  have r: "read_u64_le (write_u64_le f 0 idx) 8 = read_u64_le f 8"
    by (rule read_u64_le_cong) (simp add: write_u64_le_nth)
  have d: "drop HEADER_SIZE (write_u64_le f 0 idx) = drop HEADER_SIZE f"
    by (rule nth_equalityI) (simp_all add: write_u64_le_nth HEADER_SIZE_def)
  show ?thesis by (simp only: frame_payload_def r d)
qed

text \<open>
  C10. \<open>decode_video\<close> reads the index field of each frame and does nothing with it. For
  a stream of full frames the output is the concatenation, in arrival order, of the
  payloads of the frames, each cut at its declared (clamped) length; so two streams whose
  frames carry the same payloads decode to the same output, whatever their index fields
  and filler bytes are, and overwriting the index field of a frame with any value (out of
  order, repeated) leaves its contribution unchanged.
\<close>

theorem decode_ignores_index:
  "(list_all (\<lambda>f. length f = FRAME_SIZE) fs \<longrightarrow>
      decode_video (Some (concat fs)) True = Inr (concat (map frame_payload fs)))
   \<and> (list_all2 (\<lambda>f g. length f = FRAME_SIZE \<and> length g = FRAME_SIZE
          \<and> frame_payload f = frame_payload g) fs gs \<longrightarrow>
      decode_video (Some (concat fs)) fout_ok = decode_video (Some (concat gs)) fout_ok)
   \<and> (length f = FRAME_SIZE \<longrightarrow>
      length (write_u64_le f 0 idx) = FRAME_SIZE
      \<and> frame_payload (write_u64_le f 0 idx) = frame_payload f
      \<and> decode_frame (write_u64_le f 0 idx) = decode_frame f)"
proof (intro conjI impI)
  assume "list_all (\<lambda>f. length f = FRAME_SIZE) fs"
  then show "decode_video (Some (concat fs)) True = Inr (concat (map frame_payload fs))"
    by (rule decode_video_payloads)
next
  assume "list_all2 (\<lambda>f g. length f = FRAME_SIZE \<and> length g = FRAME_SIZE
          \<and> frame_payload f = frame_payload g) fs gs"
  from same_payloads [OF this]
  have "decode_video (Some (concat fs)) True = decode_video (Some (concat gs)) True"
    by (simp add: decode_video_payloads)
  then show "decode_video (Some (concat fs)) fout_ok = decode_video (Some (concat gs)) fout_ok"
    by (cases fout_ok) (simp_all add: decode_video_def)
next
  assume "length f = FRAME_SIZE"
  then show "length (write_u64_le f 0 idx) = FRAME_SIZE" by simp
next
  assume "length f = FRAME_SIZE"
  then show "frame_payload (write_u64_le f 0 idx) = frame_payload f"
    by (rule frame_payload_index)
next
  assume l: "length f = FRAME_SIZE"
  then have l': "length (write_u64_le f 0 idx) = FRAME_SIZE" by simp
  have "decode_frame (write_u64_le f 0 idx) = Some (frame_payload (write_u64_le f 0 idx))"
    unfolding frame_payload_def by (rule decode_frame_eq [OF l'])
  moreover have "decode_frame f = Some (frame_payload f)"
    unfolding frame_payload_def by (rule decode_frame_eq [OF l])
  ultimately show "decode_frame (write_u64_le f 0 idx) = decode_frame f"
    by (simp add: frame_payload_index [OF l])
qed

text \<open>
  Two frames that declare two payload bytes: they differ in the index field and in every
  filler byte, and carry the same payload.
\<close>

lemma sample_frame_payload:
  assumes "length hdr = 8"
  shows "frame_payload (hdr @ [2, 0, 0, 0, 0, 0, 0, 0] @ [5, 6] @ filler) = [5, 6]"
proof -
  let ?f = "hdr @ [2, 0, 0, 0, 0, 0, 0, 0] @ [5, 6] @ filler"
  have "read_u64_le ?f 8 = 2"
    using assms by (simp add: read_u64_le_def upt_rec nth_append)
  moreover have "drop HEADER_SIZE ?f = [5, 6] @ filler"
    using assms by (simp add: HEADER_SIZE_def)
  ultimately show ?thesis by (simp add: frame_payload_def CAP_eq)
qed

theorem decode_ignores_index_witness:
  "list_all (\<lambda>f. length f = FRAME_SIZE)
     [replicate 8 0 @ [2, 0, 0, 0, 0, 0, 0, 0] @ [5, 6] @ replicate (FRAME_SIZE - 18) (0 :: u8)]
   \<and> decode_video (Some (concat
        [replicate 8 0 @ [2, 0, 0, 0, 0, 0, 0, 0] @ [5, 6] @ replicate (FRAME_SIZE - 18) 0])) True
      = Inr [5, 6]
   \<and> list_all2 (\<lambda>f g. length f = FRAME_SIZE \<and> length g = FRAME_SIZE
          \<and> frame_payload f = frame_payload g)
        [replicate 8 0 @ [2, 0, 0, 0, 0, 0, 0, 0] @ [5, 6] @ replicate (FRAME_SIZE - 18) 0]
        [replicate 8 9 @ [2, 0, 0, 0, 0, 0, 0, 0] @ [5, 6] @ replicate (FRAME_SIZE - 18) 7]
   \<and> decode_video (Some (concat
        [replicate 8 0 @ [2, 0, 0, 0, 0, 0, 0, 0] @ [5, 6] @ replicate (FRAME_SIZE - 18) 0])) True
      = decode_video (Some (concat
        [replicate 8 9 @ [2, 0, 0, 0, 0, 0, 0, 0] @ [5, 6] @ replicate (FRAME_SIZE - 18) 7])) True
   \<and> length (replicate 8 0 @ [2, 0, 0, 0, 0, 0, 0, 0] @ [5, 6] @ replicate (FRAME_SIZE - 18) (0 :: u8))
      = FRAME_SIZE
   \<and> frame_payload (write_u64_le
        (replicate 8 0 @ [2, 0, 0, 0, 0, 0, 0, 0] @ [5, 6] @ replicate (FRAME_SIZE - 18) 0) 0 77)
      = [5, 6]"
proof -
  let ?f = "replicate 8 0 @ [2, 0, 0, 0, 0, 0, 0, 0] @ [5, 6] @ replicate (FRAME_SIZE - 18) (0 :: u8)"
  let ?g = "replicate 8 9 @ [2, 0, 0, 0, 0, 0, 0, 0] @ [5, 6] @ replicate (FRAME_SIZE - 18) (7 :: u8)"
  have lf: "length ?f = FRAME_SIZE" and lg: "length ?g = FRAME_SIZE"
    by (simp_all add: FRAME_SIZE_eq)
  have pf: "frame_payload ?f = [5, 6]"
    by (rule sample_frame_payload) simp
  have pg: "frame_payload ?g = [5, 6]"
    by (rule sample_frame_payload) simp
  have h1: "list_all (\<lambda>f. length f = FRAME_SIZE) [?f]"
    using lf by simp
  have h2: "list_all2 (\<lambda>f g. length f = FRAME_SIZE \<and> length g = FRAME_SIZE
          \<and> frame_payload f = frame_payload g) [?f] [?g]"
    using lf lg pf pg by simp
  note t = decode_ignores_index [of "[?f]" "[?g]" True ?f 77]
  have a: "decode_video (Some (concat [?f])) True = Inr [5, 6]"
    using t h1 pf by simp
  have b: "decode_video (Some (concat [?f])) True = decode_video (Some (concat [?g])) True"
    using t h2 by blast
  have c: "frame_payload (write_u64_le ?f 0 77) = [5, 6]"
    using t lf pf by simp
  show ?thesis using h1 a h2 b lf c by blast
qed

section \<open>The end of the codec's output\<close>

lemma decode_loop_returns:
  "length frame = FRAME_SIZE \<Longrightarrow> \<exists>r. decode_loop frame pipe fout = Inr r"
proof (induction frame pipe fout rule: decode_loop.induct)
  case (1 frame pipe fout)
  show ?case
  proof (cases "length (take FRAME_SIZE pipe) < FRAME_SIZE")
    case True
    then have "decode_loop frame pipe fout = Inr fout"
      by (subst decode_loop.simps) (simp only: if_True)
    then show ?thesis by simp
  next
    case False
    then have len: "length (take FRAME_SIZE pipe) = FRAME_SIZE" by simp
    then have w: "write_bytes frame 0 (take FRAME_SIZE pipe) = take FRAME_SIZE pipe"
      using "1.prems" by (simp only: length_write_bytes_full)
    obtain payload where d: "decode_frame (take FRAME_SIZE pipe) = Some payload"
      using decode_frame_eq [OF len] by blast
    have d': "decode_frame (write_bytes frame 0 (take FRAME_SIZE pipe)) = Some payload"
      using d w by simp
    have "\<exists>r. decode_loop (write_bytes frame 0 (take FRAME_SIZE pipe)) (drop FRAME_SIZE pipe)
            (fout @ payload) = Inr r"
      using "1.IH" [OF False d'] w len by simp
    moreover have "decode_loop frame pipe fout =
        decode_loop (write_bytes frame 0 (take FRAME_SIZE pipe)) (drop FRAME_SIZE pipe)
            (fout @ payload)"
      by (subst decode_loop.simps) (simp only: False if_False d' option.case)
    ultimately show ?thesis by simp
  qed
qed

lemma decode_loop_tail:
  "list_all (\<lambda>f. length f = FRAME_SIZE) fs \<Longrightarrow> length frame = FRAME_SIZE
   \<Longrightarrow> length tail < FRAME_SIZE
   \<Longrightarrow> decode_loop frame (concat fs @ tail) fout = decode_loop frame (concat fs) fout"
proof (induction fs arbitrary: frame fout)
  case Nil
  then show ?case by (simp add: decode_loop_short FRAME_SIZE_eq)
next
  case (Cons f fs)
  then have lf: "length f = FRAME_SIZE" and rest: "list_all (\<lambda>f. length f = FRAME_SIZE) fs"
    by simp_all
  obtain payload where pf: "decode_frame f = Some payload"
    using decode_frame_eq [OF lf] by blast
  have "decode_loop frame (concat (f # fs) @ tail) fout
      = decode_loop f (concat fs @ tail) (fout @ payload)"
    using decode_loop_step [OF lf Cons.prems(2) pf, of "concat fs @ tail"] by simp
  moreover have "decode_loop frame (concat (f # fs)) fout
      = decode_loop f (concat fs) (fout @ payload)"
    using decode_loop_step [OF lf Cons.prems(2) pf, of "concat fs"] by simp
  ultimately show ?case using Cons.IH [OF rest lf Cons.prems(3)] by simp
qed

lemma read_loop_eq: "read_loop ff tmp = tmp @ ff"
proof (induction ff tmp rule: read_loop.induct)
  case (1 ff tmp)
  show ?case
  proof (cases "length (take FRAME_CAPACITY ff) = 0")
    case True
    then have "read_loop ff tmp = tmp"
      by (subst read_loop.simps) (simp only: if_True simp_thms)
    moreover have "ff = []" using True by (auto simp: FRAME_CAPACITY_eq min_def split: if_splits)
    ultimately show ?thesis by simp
  next
    case False
    have "read_loop ff tmp = read_loop (drop FRAME_CAPACITY ff) (tmp @ take FRAME_CAPACITY ff)"
      by (subst read_loop.simps) (simp only: False if_False)
    then show ?thesis using "1.IH" [OF False] by simp
  qed
qed

lemma main_decode_exit:
  "exit_code (main_decode (Some ff) True True True) = (if 8 \<le> length ff then 0 else 1)"
  by (auto simp: main_decode_def exit_code_def Let_def read_loop_eq)

text \<open>
  C6, as the code has it. In \<open>decode_video\<close> a read that delivers less than a full frame
  leaves the loop with the output written so far; a truncated last frame is dropped, and
  every run that could open its pipe and its output file returns 0. The decode loop of
  test.cpp is left only by a read of no bytes: a shorter, non-empty read is written to the
  temporary file and the loop reads again; that run then returns 0 exactly when at least
  the eight bytes of the size header arrived, and 1 otherwise.
\<close>

theorem short_read_ends_decoding:
  "(length pipe < FRAME_SIZE \<longrightarrow> decode_loop frame pipe fout = Inr fout)
   \<and> (list_all (\<lambda>f. length f = FRAME_SIZE) fs \<and> length tail < FRAME_SIZE \<longrightarrow>
        decode_video (Some (concat fs @ tail)) True = decode_video (Some (concat fs)) True)
   \<and> exit_code (decode_video (Some stream) True) = 0
   \<and> read_loop [] tmp = tmp
   \<and> (0 < length ff \<and> length ff < FRAME_CAPACITY \<longrightarrow>
        read_loop ff tmp = read_loop [] (tmp @ ff))
   \<and> exit_code (main_decode (Some ff) True True True) = (if 8 \<le> length ff then 0 else 1)"
proof (intro conjI impI)
  assume "length pipe < FRAME_SIZE"
  then show "decode_loop frame pipe fout = Inr fout" by (rule decode_loop_short)
next
  assume "list_all (\<lambda>f. length f = FRAME_SIZE) fs \<and> length tail < FRAME_SIZE"
  then have "decode_loop (replicate FRAME_SIZE 0) (concat fs @ tail) []
      = decode_loop (replicate FRAME_SIZE 0) (concat fs) []"
    by (intro decode_loop_tail) simp_all
  then show "decode_video (Some (concat fs @ tail)) True = decode_video (Some (concat fs)) True"
    by (simp add: decode_video_def)
next
  obtain r where "decode_loop (replicate FRAME_SIZE 0) stream [] = Inr r"
    using decode_loop_returns [of "replicate FRAME_SIZE 0" stream "[]"] by auto
  then show "exit_code (decode_video (Some stream) True) = 0"
    by (simp add: decode_video_def exit_code_def)
next
  show "read_loop [] tmp = tmp" by (simp add: read_loop_eq)
next
  show "read_loop ff tmp = read_loop [] (tmp @ ff)" by (simp add: read_loop_eq)
next
  show "exit_code (main_decode (Some ff) True True True) = (if 8 \<le> length ff then 0 else 1)"
    by (rule main_decode_exit)
qed

theorem short_read_ends_decoding_witness:
  "length [1, 2 :: u8] < FRAME_SIZE
   \<and> decode_loop (replicate FRAME_SIZE 0) [1, 2] [5] = Inr [5]
   \<and> list_all (\<lambda>f. length f = FRAME_SIZE) [replicate FRAME_SIZE (0 :: u8)]
   \<and> decode_video (Some (concat [replicate FRAME_SIZE 0] @ [1, 2])) True
        = decode_video (Some (concat [replicate FRAME_SIZE 0])) True
   \<and> exit_code (decode_video (Some [1, 2]) True) = 0
   \<and> read_loop [] [5] = [5]
   \<and> 0 < length [1, 2 :: u8] \<and> length [1, 2 :: u8] < FRAME_CAPACITY
   \<and> read_loop [1, 2] [5] = read_loop [] ([5] @ [1, 2])
   \<and> exit_code (main_decode (Some [1, 2]) True True True) = 1"
  using short_read_ends_decoding [of "[1, 2]" "replicate FRAME_SIZE 0" "[5]"
      "[replicate FRAME_SIZE 0]" "[1, 2]" "[1, 2]" "[5]" "[1, 2]"]
  by (simp add: FRAME_SIZE_eq FRAME_CAPACITY_eq)

text \<open>
  In test.cpp a read of one byte, less than a frame, does not end the loop there (the
  byte is written and the loop reads again), and when the codec delivers nothing the run
  ends with exit code 1.
\<close>

theorem short_read_counterexample:
  "read_loop [7] [] = read_loop [] [7] \<and> read_loop [7] [] = [7]
   \<and> main_decode (Some []) True True True = Inl CannotReadSizeHeader
   \<and> exit_code (main_decode (Some []) True True True) = 1"
  by (simp add: read_loop_eq main_decode_def exit_code_def)

section \<open>The empty file\<close>

lemma replicate_update_same: "(replicate n x)[i := x] = replicate n x"
  by (cases "i < n") (simp_all add: list_update_beyond list_eq_iff_nth_eq nth_list_update)

lemma fold_update_zero:
  "fold (\<lambda>i b. b[g i := (0 :: u8)]) xs (replicate n 0) = replicate n 0"
  by (induction xs) (simp_all add: replicate_update_same)

lemma write_size_be_zero: "write_size_be (replicate n 0) 0 = replicate n 0"
  by (simp add: write_size_be_def fold_update_zero)

lemma zero_fill: "8 \<le> n \<Longrightarrow> write_bytes (replicate n 0) 8 (replicate (n - 8) 0) = replicate n 0"
proof -
  assume n: "8 \<le> n"
  have "replicate 8 (0 :: u8) @ replicate (n - 8) 0 = replicate (8 + (n - 8)) 0"
    by (simp only: replicate_add)
  then show ?thesis using n by (simp add: write_bytes_def min_def)
qed

lemma reader_frame_empty_first:
  "reader_frame 0 0 [] = Some (replicate FRAME_CAPACITY 0, [])"
proof -
  have c: "8 \<le> FRAME_CAPACITY" "0 < FRAME_CAPACITY - 8" by (simp_all add: FRAME_CAPACITY_eq)
  have w: "write_bytes (replicate FRAME_CAPACITY 0) 8 [] = replicate FRAME_CAPACITY 0"
    by (simp only: write_bytes_def list.size(3) add_0_right append_Nil append_take_drop_id)
  show ?thesis
    using c by (simp add: reader_frame_def Let_def w write_size_be_zero memset0_def zero_fill)
qed

lemma reader_frame_empty_next: "reader_frame file_size (Suc n) [] = None"
  by (simp add: reader_frame_def Let_def)

lemma reader_loop_empty: "reader_loop 0 0 [] = [replicate FRAME_CAPACITY 0]"
proof -
  have "reader_loop 0 (Suc 0) [] = []"
    by (subst reader_loop.simps) (simp add: reader_frame_empty_next)
  then show ?thesis
    by (subst reader_loop.simps) (simp add: reader_frame_empty_first)
qed

lemma main_decode_zero_frame:
  "main_decode (Some (replicate FRAME_CAPACITY 0)) True True True = Inr []"
proof -
  have t: "take 8 (replicate FRAME_CAPACITY (0 :: u8)) = replicate 8 0"
    by (simp add: FRAME_CAPACITY_eq)
  have z: "fold (\<lambda>i v. push_bit 8 v OR ucast (replicate 8 (0 :: u8) ! i)) [0..<8] (0 :: u64) = 0"
    by (simp add: upt_rec)
  have c: "copy_loop 0 tmp [] = []" for tmp
    by (subst copy_loop.simps) simp
  show ?thesis
    by (simp add: main_decode_def Let_def read_loop_eq t z c FRAME_CAPACITY_eq)
qed

lemma encode_file_empty: "encode_file rnd (Some []) True = Inr []"
proof -
  have "\<not> 0 < bytes_left (enc_init [])" by (simp add: enc_init_def)
  then have "frames_written rnd (enc_init []) = []"
    by (subst frames_written.simps) (simp only: if_False)
  then show ?thesis by (simp add: encode_file_stream)
qed

text \<open>
  C9, as the code has it. For a 0-byte input the reader thread of test.cpp pushes exactly
  one frame, the 8-byte size header (zero) followed by zero padding, and the decode branch
  turns that stream into a 0-byte file. \<open>encode_file\<close> of yt-safe.cpp never enters its
  loop and writes no frame at all; \<open>decode_video\<close> of that empty stream gives a 0-byte file.
\<close>

theorem empty_file_scenario:
  "reader_loop (of_nat (length ([] :: u8 list))) 0 [] = [replicate FRAME_CAPACITY 0]
   \<and> main_encode (Some []) True True = Inr (replicate FRAME_CAPACITY 0)
   \<and> main_decode (Some (replicate FRAME_CAPACITY 0)) True True True = Inr []
   \<and> encode_file rnd (Some []) True = Inr []
   \<and> frames_of [] = []
   \<and> decode_video (Some []) True = Inr []"
  by (simp add: reader_loop_empty main_encode_def main_decode_zero_frame encode_file_empty
      frames_of_short decode_video_def decode_loop_short FRAME_SIZE_eq)

theorem empty_file_scenario_witness:
  "reader_loop (of_nat (length ([] :: u8 list))) 0 [] = [replicate FRAME_CAPACITY 0]
   \<and> main_encode (Some []) True True = Inr (replicate FRAME_CAPACITY 0)
   \<and> main_decode (Some (replicate FRAME_CAPACITY 0)) True True True = Inr []
   \<and> encode_file zero_rand (Some []) True = Inr []
   \<and> frames_of [] = []
   \<and> decode_video (Some []) True = Inr []"
  by (rule empty_file_scenario [of zero_rand])

text \<open>
  In yt-safe.cpp the stream written by \<open>encode_file\<close> for the empty file is empty and
  holds no frame.
\<close>

theorem empty_file_counterexample:
  "encode_file zero_rand (Some []) True = Inr [] \<and> length (frames_of []) = 0"
  by (simp add: encode_file_empty frames_of_short FRAME_SIZE_eq)

end
